theory Spec2Isabelle
  imports Complex_Main
begin

section \<open>Data model (types.ts)\<close>

datatype InsightType = EXPLAIN | SLIDE | INFOGRAPHIC | CODE | SUMMARY

text \<open>
  Surface coordinates are JavaScript numbers; they are modelled as reals, so that
  subtraction, comparison and absolute value are exact.
\<close>

record BoundingBox =
  box_x :: real
  box_y :: real
  box_width :: real
  box_height :: real

record SelectionData =
  pageNumber :: nat
  rect :: BoundingBox
  imageBase64 :: string

record InsightResult =
  insight_id :: string
  insight_type :: InsightType
  content :: string
  isLoading :: bool
  timestamp :: nat

section \<open>The page component (components/PaperViewer.tsx, PDFPage)\<close>

record Point =
  pt_x :: real
  pt_y :: real

record MouseEvent =
  clientX :: real
  clientY :: real

text \<open>
  The canvas behind \<open>canvasRef.current\<close> is represented by what the handlers read from it:
  the bounding client rectangle at the moment of the event. \<open>None\<close> is a null ref.
\<close>

record DOMRect =
  rect_left :: real
  rect_top :: real

record PageState =
  selectionBox :: "BoundingBox option"
  isSelecting :: bool
  startPos :: "Point option"

definition initialPage :: PageState where
  "initialPage = \<lparr>selectionBox = None, isSelecting = False, startPos = None\<rparr>"

definition getCanvasCoordinates :: "DOMRect option \<Rightarrow> MouseEvent \<Rightarrow> Point" where
  "getCanvasCoordinates canvas e =
     (case canvas of
        None \<Rightarrow> \<lparr>pt_x = 0, pt_y = 0\<rparr>
      | Some r \<Rightarrow> \<lparr>pt_x = clientX e - rect_left r, pt_y = clientY e - rect_top r\<rparr>)"

text \<open>
  \<open>handleMouseDown\<close> first calls \<open>onSelectionStart(pageNumber)\<close>; the page number handed
  to the parent is the first component of the result.
\<close>

definition handleMouseDown ::
  "nat \<Rightarrow> DOMRect option \<Rightarrow> MouseEvent \<Rightarrow> PageState \<Rightarrow> nat \<times> PageState" where
  "handleMouseDown pageNum canvas e ps =
     (let p = getCanvasCoordinates canvas e
      in (pageNum,
          ps\<lparr>isSelecting := True,
             startPos := Some p,
             selectionBox := Some \<lparr>box_x = pt_x p, box_y = pt_y p,
                                   box_width = 0, box_height = 0\<rparr>\<rparr>))"

definition handleMouseMove :: "DOMRect option \<Rightarrow> MouseEvent \<Rightarrow> PageState \<Rightarrow> PageState" where
  "handleMouseMove canvas e ps =
     (if isSelecting ps then
        (case startPos ps of
           None \<Rightarrow> ps
         | Some s \<Rightarrow>
             (let p = getCanvasCoordinates canvas e;
                  w = pt_x p - pt_x s;
                  h = pt_y p - pt_y s
              in ps\<lparr>selectionBox :=
                      Some \<lparr>box_x = (if w > 0 then pt_x s else pt_x p),
                            box_y = (if h > 0 then pt_y s else pt_y p),
                            box_width = \<bar>w\<bar>,
                            box_height = \<bar>h\<bar>\<rparr>\<rparr>))
      else ps)"

text \<open>
  \<open>handleMouseUp\<close> (also bound to \<open>onMouseLeave\<close>). The argument \<open>capture\<close> stands for the
  offscreen canvas: \<open>capture b\<close> is \<open>None\<close> when \<open>getContext('2d')\<close> yields null, and
  otherwise the data URL of the region \<open>b\<close> drawn into it. The second component of the
  result lists the calls of \<open>onSelectionComplete\<close>.
\<close>

definition handleMouseUp ::
  "nat \<Rightarrow> DOMRect option \<Rightarrow> (BoundingBox \<Rightarrow> string option) \<Rightarrow> PageState
     \<Rightarrow> PageState \<times> SelectionData list" where
  "handleMouseUp pageNum canvas capture ps =
     (if isSelecting ps then
        (case (selectionBox ps, canvas) of
           (Some b, Some c) \<Rightarrow>
             (let ps1 = ps\<lparr>isSelecting := False, startPos := None\<rparr>
              in if box_width b < 10 \<or> box_height b < 10
                 then (ps1\<lparr>selectionBox := None\<rparr>, [])
                 else (case capture b of
                         None \<Rightarrow> (ps1, [])
                       | Some img \<Rightarrow>
                           (ps1, [\<lparr>pageNumber = pageNum, rect = b, imageBase64 = img\<rparr>])))
         | _ \<Rightarrow> (ps\<lparr>isSelecting := False\<rparr>, []))
      else (ps\<lparr>isSelecting := False\<rparr>, []))"

text \<open>
  A drag: pointer-down with one event, then pointer-moves. Each event comes with the
  canvas as the handler finds it.
\<close>

definition drag ::
  "nat \<Rightarrow> DOMRect option \<times> MouseEvent \<Rightarrow> (DOMRect option \<times> MouseEvent) list
     \<Rightarrow> PageState \<Rightarrow> PageState" where
  "drag pageNum d ms ps =
     foldl (\<lambda>s m. handleMouseMove (fst m) (snd m) s)
       (snd (handleMouseDown pageNum (fst d) (snd d) ps)) ms"

definition coords :: "DOMRect option \<times> MouseEvent \<Rightarrow> Point" where
  "coords m = getCanvasCoordinates (fst m) (snd m)"


section \<open>The viewer component (components/PaperViewer.tsx, PaperViewer)\<close>

text \<open>
  A thrown JavaScript value: an \<open>Error\<close> object with its message, or any other value,
  represented by the string that \<open>String(error)\<close> gives.
\<close>

datatype Thrown = ErrorObject string | OtherValue string

type_synonym File = string

text \<open>Of the parsed document the viewer reads \<open>numPages\<close> only.\<close>

record PdfDoc =
  numPages :: nat

text \<open>
  \<open>pages\<close> holds the state of the mounted \<open>PDFPage\<close> components, page \<open>n\<close> at index
  \<open>n - 1\<close>: the viewer renders one component per page of \<open>pdfDoc\<close>, keyed by the page
  number, so a component keeps its state while its key stays in the list. The zoom
  scale is left out: no handler below reads it.
\<close>

record Viewer =
  pdfDoc :: "PdfDoc option"
  activeSelectionPage :: "nat option"
  pages :: "PageState list"

definition initialViewer :: Viewer where
  "initialViewer = \<lparr>pdfDoc = None, activeSelectionPage = None, pages = []\<rparr>"

definition setPdfDoc :: "PdfDoc option \<Rightarrow> Viewer \<Rightarrow> Viewer" where
  "setPdfDoc d v =
     (case d of
        None \<Rightarrow> v\<lparr>pdfDoc := None, pages := []\<rparr>
      | Some doc \<Rightarrow>
          v\<lparr>pdfDoc := Some doc,
            pages := take (numPages doc) (pages v)
                     @ replicate (numPages doc - length (pages v)) initialPage\<rparr>)"

text \<open>
  The effect on \<open>[file]\<close>: without a file the document is dropped; with a file the
  asynchronous load starts, and no state changes before it settles.
\<close>

definition fileEffect :: "File option \<Rightarrow> Viewer \<Rightarrow> Viewer" where
  "fileEffect f v = (case f of None \<Rightarrow> setPdfDoc None v | Some fl \<Rightarrow> v)"

text \<open>
  The end of \<open>fileReader.onload\<close>: \<open>Inr doc\<close> when \<open>loadingTask.promise\<close> resolves,
  \<open>Inl error\<close> when \<open>getDocument\<close> throws or the promise rejects (the catch logs it).
\<close>

definition loadSettled :: "Thrown + PdfDoc \<Rightarrow> Viewer \<Rightarrow> Viewer" where
  "loadSettled r v = (case r of Inr doc \<Rightarrow> setPdfDoc (Some doc) v | Inl error \<Rightarrow> v)"

definition handleSelectionStart :: "nat \<Rightarrow> Viewer \<Rightarrow> Viewer" where
  "handleSelectionStart pageNum v = v\<lparr>activeSelectionPage := Some pageNum\<rparr>"

text \<open>
  The effect on \<open>[isSelectionActive]\<close> of page \<open>pageNum\<close>, when the marker goes from
  \<open>old\<close> to \<open>new\<close>: it runs if the prop changed, and clears the box if the prop is false.
\<close>

definition selectionActiveEffect :: "nat option \<Rightarrow> nat option \<Rightarrow> nat \<Rightarrow> PageState \<Rightarrow> PageState" where
  "selectionActiveEffect old new pageNum ps =
     (if (old = Some pageNum) = (new = Some pageNum) then ps
      else if new = Some pageNum then ps
      else ps\<lparr>selectionBox := None\<rparr>)"

fun runEffects :: "nat option \<Rightarrow> nat option \<Rightarrow> nat \<Rightarrow> PageState list \<Rightarrow> PageState list" where
  "runEffects old new n [] = []"
| "runEffects old new n (ps # pss) =
     selectionActiveEffect old new n ps # runEffects old new (Suc n) pss"

datatype PageEvent = Down MouseEvent | Move MouseEvent | Up | Leave

text \<open>
  A mouse event on the canvas of page \<open>p\<close>, whose bounding rectangle is \<open>r\<close> at that
  moment: the handler of that page runs, then the effects of the pages whose props
  changed. \<open>capture p\<close> is the offscreen capture on page \<open>p\<close>. The second component
  lists what reaches \<open>onSelectionComplete\<close>.
\<close>

definition onPage ::
  "(nat \<Rightarrow> BoundingBox \<Rightarrow> string option) \<Rightarrow> nat \<Rightarrow> DOMRect \<Rightarrow> PageEvent \<Rightarrow> Viewer
     \<Rightarrow> Viewer \<times> SelectionData list" where
  "onPage capture p r ev v =
     (if 1 \<le> p \<and> p \<le> length (pages v) then
        (let ps = pages v ! (p - 1)
         in case ev of
              Down e \<Rightarrow>
                (let started = handleMouseDown p (Some r) e ps;
                     v1 = handleSelectionStart (fst started) v
                 in (v1\<lparr>pages := runEffects (activeSelectionPage v) (activeSelectionPage v1) 1
                                    ((pages v)[p - 1 := snd started])\<rparr>, []))
            | Move e \<Rightarrow> (v\<lparr>pages := (pages v)[p - 1 := handleMouseMove (Some r) e ps]\<rparr>, [])
            | Up \<Rightarrow>
                (let ended = handleMouseUp p (Some r) (capture p) ps
                 in (v\<lparr>pages := (pages v)[p - 1 := fst ended]\<rparr>, snd ended))
            | Leave \<Rightarrow>
                (let ended = handleMouseUp p (Some r) (capture p) ps
                 in (v\<lparr>pages := (pages v)[p - 1 := fst ended]\<rparr>, snd ended)))
      else (v, []))"

text \<open>The page numbers whose selection overlay is rendered, counted from page \<open>n\<close>.\<close>

fun overlayFrom :: "nat \<Rightarrow> PageState list \<Rightarrow> nat list" where
  "overlayFrom n [] = []"
| "overlayFrom n (ps # pss) =
     (case selectionBox ps of None \<Rightarrow> overlayFrom (Suc n) pss
                            | Some b \<Rightarrow> n # overlayFrom (Suc n) pss)"

definition overlayPages :: "Viewer \<Rightarrow> nat list" where
  "overlayPages v = overlayFrom 1 (pages v)"

section \<open>The orchestrator (App.tsx)\<close>

record App =
  app_file :: "File option"
  insights :: "InsightResult list"
  currentSelection :: "SelectionData option"

definition initialApp :: App where
  "initialApp = \<lparr>app_file = None, insights = [], currentSelection = None\<rparr>"

text \<open>\<open>files\<close> is \<open>e.target.files\<close>: null, or the list of chosen files.\<close>

definition handleFileUpload :: "File list option \<Rightarrow> App \<Rightarrow> App" where
  "handleFileUpload files a =
     (case files of
        Some (f # fs) \<Rightarrow> a\<lparr>app_file := Some f, insights := [], currentSelection := None\<rparr>
      | _ \<Rightarrow> a)"

definition handleSelectionComplete :: "SelectionData \<Rightarrow> App \<Rightarrow> App" where
  "handleSelectionComplete d a = a\<lparr>currentSelection := Some d\<rparr>"

definition cancelSelection :: "App \<Rightarrow> App" where
  "cancelSelection a = a\<lparr>currentSelection := None\<rparr>"

text \<open>\<open>Number.prototype.toString\<close> on a clock reading: its decimal digits.\<close>

definition digit_char :: "nat \<Rightarrow> char" where
  "digit_char d = char_of (48 + d)"

fun toString :: "nat \<Rightarrow> string" where
  "toString n =
     (if n < 10 then [digit_char n] else toString (n div 10) @ [digit_char (n mod 10)])"

declare toString.simps [simp del]

text \<open>
  \<open>newInsight\<close> reads the clock twice: \<open>now1\<close> for the id, \<open>now2\<close> for the timestamp.
\<close>

definition newInsight :: "InsightType \<Rightarrow> nat \<Rightarrow> nat \<Rightarrow> InsightResult" where
  "newInsight ty now1 now2 =
     \<lparr>insight_id = toString now1, insight_type = ty, content = [], isLoading = True,
      timestamp = now2\<rparr>"

text \<open>
  \<open>handleAction\<close> runs in two parts. The first part, up to the \<open>await\<close>, appends the new
  entry and issues the request: it returns the id of the entry and the arguments of
  \<open>generateInsight\<close>. Without a selection it returns at once.
\<close>

record Pending =
  pending_id :: string
  pending_image :: string
  pending_type :: InsightType

definition handleAction_start :: "InsightType \<Rightarrow> nat \<Rightarrow> nat \<Rightarrow> App \<Rightarrow> App \<times> Pending option" where
  "handleAction_start ty now1 now2 a =
     (case currentSelection a of
        None \<Rightarrow> (a, None)
      | Some sel \<Rightarrow>
          (let newI = newInsight ty now1 now2
           in (a\<lparr>insights := insights a @ [newI]\<rparr>,
               Some \<lparr>pending_id = insight_id newI, pending_image = imageBase64 sel,
                     pending_type = ty\<rparr>)))"

text \<open>The updater handed to \<open>setInsights\<close> when the request settles.\<close>

definition completeInsight :: "string \<Rightarrow> string \<Rightarrow> InsightResult list \<Rightarrow> InsightResult list" where
  "completeInsight k c prev =
     map (\<lambda>i. if insight_id i = k then i\<lparr>content := c, isLoading := False\<rparr> else i) prev"

text \<open>What the updater does to one entry.\<close>

definition settleEntry :: "string \<Rightarrow> string \<Rightarrow> InsightResult \<Rightarrow> InsightResult" where
  "settleEntry k c i = (if insight_id i = k then i\<lparr>content := c, isLoading := False\<rparr> else i)"

text \<open>
  The second part of \<open>handleAction\<close>, after the \<open>await\<close>: \<open>Inr result\<close> when the promise
  of \<open>generateInsight\<close> resolved, \<open>Inl error\<close> when it rejected (the catch block).
\<close>

definition handleAction_settle :: "string \<Rightarrow> Thrown + string \<Rightarrow> App \<Rightarrow> App" where
  "handleAction_settle k r a =
     (case r of
        Inr result \<Rightarrow> a\<lparr>insights := completeInsight k result (insights a)\<rparr>
      | Inl error \<Rightarrow> a\<lparr>insights := completeInsight k ''Error processing request.'' (insights a)\<rparr>)"

text \<open>The content that the settled request leaves in its entry.\<close>

definition outcomeText :: "Thrown + string \<Rightarrow> string" where
  "outcomeText r =
     (case r of Inr result \<Rightarrow> result | Inl error \<Rightarrow> ''Error processing request.'')"

definition removeInsight :: "string \<Rightarrow> App \<Rightarrow> App" where
  "removeInsight k a = a\<lparr>insights := filter (\<lambda>i. insight_id i \<noteq> k) (insights a)\<rparr>"

section \<open>The generation service (services/geminiService.ts)\<close>












section \<open>The session: both components under the events of the page\<close>

record Session =
  app :: App
  viewer :: Viewer

definition initialSession :: Session where
  "initialSession = \<lparr>app = initialApp, viewer = initialViewer\<rparr>"

datatype Event =
    Upload "File list option"
  | ParseSettled "Thrown + PdfDoc"
  | Pointer nat DOMRect PageEvent
  | Action InsightType nat nat
  | Settled string "Thrown + string"
  | Remove string
  | Cancel

text \<open>
  One event of the page. An upload runs \<open>handleFileUpload\<close> and, if the file changed,
  the effect on \<open>[file]\<close>; the parse it starts settles in a later event. A mouse event
  runs the handler of its page, and what the page emits goes to
  \<open>handleSelectionComplete\<close>. An action runs \<open>handleAction\<close> up to its \<open>await\<close>,
  and the answer to its request arrives in a later event.
\<close>

definition step :: "(nat \<Rightarrow> BoundingBox \<Rightarrow> string option) \<Rightarrow> Event \<Rightarrow> Session \<Rightarrow> Session" where
  "step capture ev s =
     (case ev of
        Upload files \<Rightarrow>
          (let a = handleFileUpload files (app s)
           in s\<lparr>app := a,
                 viewer := (if app_file a = app_file (app s) then viewer s
                            else fileEffect (app_file a) (viewer s))\<rparr>)
      | ParseSettled r \<Rightarrow> s\<lparr>viewer := loadSettled r (viewer s)\<rparr>
      | Pointer p r pe \<Rightarrow>
          (let res = onPage capture p r pe (viewer s)
           in s\<lparr>viewer := fst res,
                 app := foldl (\<lambda>a d. handleSelectionComplete d a) (app s) (snd res)\<rparr>)
      | Action ty now1 now2 \<Rightarrow> s\<lparr>app := fst (handleAction_start ty now1 now2 (app s))\<rparr>
      | Settled k r \<Rightarrow> s\<lparr>app := handleAction_settle k r (app s)\<rparr>
      | Remove k \<Rightarrow> s\<lparr>app := removeInsight k (app s)\<rparr>
      | Cancel \<Rightarrow> s\<lparr>app := cancelSelection (app s)\<rparr>)"

definition run :: "(nat \<Rightarrow> BoundingBox \<Rightarrow> string option) \<Rightarrow> Event list \<Rightarrow> Session \<Rightarrow> Session" where
  "run capture evs s = foldl (\<lambda>s ev. step capture ev s) s evs"

text \<open>
  One mouse pointer: an event reaches the canvas under the pointer, and the pointer
  leaves a canvas (\<open>Leave\<close>) before an event reaches another one. The first argument is
  the page whose canvas holds the pointer since its last event, if any; a page that a
  new document no longer has holds it no more.
\<close>

definition pointerOk :: "nat option \<Rightarrow> Event \<Rightarrow> bool" where
  "pointerOk cur ev =
     (case ev of
        Pointer p r pe \<Rightarrow> (case cur of None \<Rightarrow> True | Some q \<Rightarrow> q = p)
      | _ \<Rightarrow> True)"

definition pointerNext :: "nat option \<Rightarrow> Event \<Rightarrow> nat option" where
  "pointerNext cur ev =
     (case ev of
        Pointer p r pe \<Rightarrow> (if pe = Leave then None else Some p)
      | ParseSettled (Inr doc) \<Rightarrow>
          (case cur of None \<Rightarrow> None
           | Some q \<Rightarrow> if q \<le> numPages doc then Some q else None)
      | _ \<Rightarrow> cur)"

fun pointerTrace :: "nat option \<Rightarrow> Event list \<Rightarrow> bool" where
  "pointerTrace cur [] = True"
| "pointerTrace cur (ev # evs) = (pointerOk cur ev \<and> pointerTrace (pointerNext cur ev) evs)"

text \<open>
  What holds of the pages between events: a page in a drag holds the pointer and is the
  marked one, and a page that shows a box is the marked one.
\<close>

definition pageInv :: "nat option \<Rightarrow> Viewer \<Rightarrow> bool" where
  "pageInv cur v =
     (\<forall>i < length (pages v).
        (isSelecting (pages v ! i) \<longrightarrow>
           cur = Some (Suc i) \<and> activeSelectionPage v = Some (Suc i)) \<and>
        (selectionBox (pages v ! i) \<noteq> None \<longrightarrow> activeSelectionPage v = Some (Suc i)))"

section \<open>Sample environments\<close>


definition pngCapture :: "BoundingBox \<Rightarrow> string option" where
  "pngCapture b = Some ''data:image/png;base64,iVBORw0KGgo=''"

definition pageCapture :: "nat \<Rightarrow> BoundingBox \<Rightarrow> string option" where
  "pageCapture p b = pngCapture b"

definition origin :: DOMRect where
  "origin = \<lparr>rect_left = 0, rect_top = 0\<rparr>"

definition mouseAt :: "real \<Rightarrow> real \<Rightarrow> MouseEvent" where
  "mouseAt cx cy = \<lparr>clientX = cx, clientY = cy\<rparr>"

text \<open>
  A session in which a three-page document is loaded and a region of page 1 is
  committed, and the events that lead to it.
\<close>

definition sampleSelection :: SelectionData where
  "sampleSelection =
     \<lparr>pageNumber = 1,
      rect = \<lparr>box_x = 40, box_y = 50, box_width = 70, box_height = 170\<rparr>,
      imageBase64 = ''data:image/png;base64,iVBORw0KGgo=''\<rparr>"

definition selectedApp :: App where
  "selectedApp =
     \<lparr>app_file = Some ''paper.pdf'', insights = [], currentSelection = Some sampleSelection\<rparr>"

definition pendingApp :: App where
  "pendingApp =
     selectedApp\<lparr>insights :=
       [\<lparr>insight_id = ''1000'', insight_type = EXPLAIN, content = [], isLoading = True,
         timestamp = 1000\<rparr>]\<rparr>"

definition selectedViewer :: Viewer where
  "selectedViewer =
     \<lparr>pdfDoc = Some \<lparr>numPages = 3\<rparr>, activeSelectionPage = Some 1,
      pages = [\<lparr>selectionBox = Some \<lparr>box_x = 40, box_y = 50, box_width = 70, box_height = 170\<rparr>,
                isSelecting = False, startPos = None\<rparr>,
               initialPage, initialPage]\<rparr>"

definition selectedSession :: Session where
  "selectedSession = \<lparr>app = selectedApp, viewer = selectedViewer\<rparr>"

definition selectingEvents :: "Event list" where
  "selectingEvents =
     [Upload (Some [''paper.pdf'']), ParseSettled (Inr \<lparr>numPages = 3\<rparr>),
      Pointer 1 origin (Down (mouseAt 110 220)), Pointer 1 origin (Move (mouseAt 40 50)),
      Pointer 1 origin Up]"



section \<open>Selection geometry\<close>

lemma drag_state:
  "isSelecting (drag n d ms ps) \<and>
   startPos (drag n d ms ps) = Some (coords d) \<and>
   selectionBox (drag n d ms ps) =
     Some \<lparr>box_x = min (pt_x (coords d)) (pt_x (coords (last (d # ms)))),
           box_y = min (pt_y (coords d)) (pt_y (coords (last (d # ms)))),
           box_width = \<bar>pt_x (coords (last (d # ms))) - pt_x (coords d)\<bar>,
           box_height = \<bar>pt_y (coords (last (d # ms))) - pt_y (coords d)\<bar>\<rparr>"
proof (induction ms rule: rev_induct)
  case Nil
  show ?case
    by (simp add: drag_def handleMouseDown_def coords_def Let_def)
next
  case (snoc m ms)
  have step: "drag n d (ms @ [m]) ps = handleMouseMove (fst m) (snd m) (drag n d ms ps)"
    by (simp add: drag_def)
  from snoc show ?case
    unfolding step
    by (simp add: handleMouseMove_def coords_def Let_def min_def)
qed

text \<open>
  C1. After pointer-down at an anchor and any pointer-moves, the selection box has
  non-negative width and height, its corner is the componentwise minimum of the anchor
  and the current point, and its size is the distance between them; so the drag from a
  first point to a second and the drag from the second to the first end with the same box.
\<close>

theorem C1_selection_box_normalized:
  "(\<exists>b. selectionBox (drag n d ms ps) = Some b \<and>
        0 \<le> box_width b \<and> 0 \<le> box_height b \<and>
        box_x b = min (pt_x (coords d)) (pt_x (coords (last (d # ms)))) \<and>
        box_y b = min (pt_y (coords d)) (pt_y (coords (last (d # ms)))) \<and>
        box_width b = \<bar>pt_x (coords (last (d # ms))) - pt_x (coords d)\<bar> \<and>
        box_height b = \<bar>pt_y (coords (last (d # ms))) - pt_y (coords d)\<bar>) \<and>
   selectionBox (drag n d (ms @ [d']) ps) = selectionBox (drag n' d' (ms' @ [d]) ps')"
proof -
  have "selectionBox (drag n d (ms @ [d']) ps) = selectionBox (drag n' d' (ms' @ [d]) ps')"
    using drag_state [of n d "ms @ [d']" ps] drag_state [of n' d' "ms' @ [d]" ps']
    by (simp add: min.commute abs_minus_commute)
  then show ?thesis
    using drag_state [of n d ms ps] by simp
qed

theorem C1_selection_box_normalized_witness:
  "selectionBox
     (drag 1 (Some \<lparr>rect_left = 10, rect_top = 20\<rparr>, \<lparr>clientX = 110, clientY = 220\<rparr>)
        [(Some \<lparr>rect_left = 10, rect_top = 20\<rparr>, \<lparr>clientX = 40, clientY = 50\<rparr>)] initialPage)
   = Some \<lparr>box_x = 30, box_y = 30, box_width = 70, box_height = 170\<rparr> \<and>
   selectionBox
     (drag 1 (Some \<lparr>rect_left = 10, rect_top = 20\<rparr>, \<lparr>clientX = 40, clientY = 50\<rparr>)
        [(Some \<lparr>rect_left = 10, rect_top = 20\<rparr>, \<lparr>clientX = 110, clientY = 220\<rparr>)] initialPage)
   = Some \<lparr>box_x = 30, box_y = 30, box_width = 70, box_height = 170\<rparr>"
  using C1_selection_box_normalized
    [of 1 "(Some \<lparr>rect_left = 10, rect_top = 20\<rparr>, \<lparr>clientX = 110, clientY = 220\<rparr>)"
        "[]" initialPage
        "(Some \<lparr>rect_left = 10, rect_top = 20\<rparr>, \<lparr>clientX = 40, clientY = 50\<rparr>)"
        1 "[]" initialPage]
  by (simp add: drag_def handleMouseDown_def handleMouseMove_def initialPage_def
        getCanvasCoordinates_def Let_def)

section \<open>Committing a selection\<close>







section \<open>The life of an insight entry\<close>

lemma handleAction_settle_eq:
  "handleAction_settle k r a = a\<lparr>insights := completeInsight k (outcomeText r) (insights a)\<rparr>"
  by (simp add: handleAction_settle_def outcomeText_def split: sum.splits)




lemma completeInsight_absent:
  "k \<notin> insight_id ` set xs \<Longrightarrow> completeInsight k c xs = xs"
  by (induction xs) (auto simp add: completeInsight_def)



text \<open>
  C5. A completion for an id that no entry carries leaves the state as it is; so it does
  after the entry was removed, or after an upload cleared the list, and the removed
  entry does not come back. The update is a total function: there is no failure case.
\<close>

theorem C5_missing_id_dropped:
  "(k \<notin> insight_id ` set (insights a) \<longrightarrow> handleAction_settle k r a = a)
   \<and> handleAction_settle k r (removeInsight k a) = removeInsight k a
   \<and> k \<notin> insight_id ` set (insights (handleAction_settle k r (removeInsight k a)))
   \<and> handleAction_settle k r (handleFileUpload (Some (f # fs)) a)
       = handleFileUpload (Some (f # fs)) a"
proof -
  have gone: "k \<notin> insight_id ` set (insights (removeInsight k a))"
    by (auto simp add: removeInsight_def)
  have drop: "k \<notin> insight_id ` set (insights b) \<Longrightarrow> handleAction_settle k r b = b" for b
    unfolding handleAction_settle_eq by (simp add: completeInsight_absent)
  have cleared: "insights (handleFileUpload (Some (f # fs)) a) = []"
    by (simp add: handleFileUpload_def)
  have "handleAction_settle k r (handleFileUpload (Some (f # fs)) a)
       = handleFileUpload (Some (f # fs)) a"
    by (rule drop) (simp add: cleared)
  moreover have "handleAction_settle k r (removeInsight k a) = removeInsight k a"
    by (rule drop [OF gone])
  moreover have "k \<notin> insight_id ` set (insights (handleAction_settle k r (removeInsight k a)))"
    using gone by (simp only: drop [OF gone] not_False_eq_True)
  moreover have "k \<notin> insight_id ` set (insights a) \<longrightarrow> handleAction_settle k r a = a"
    using drop [of a] by (rule impI)
  ultimately show ?thesis by (intro conjI)
qed

theorem C5_missing_id_dropped_witness:
  "''1001'' \<notin> insight_id ` set (insights pendingApp) \<and>
   handleAction_settle ''1001'' (Inr ''late answer'') pendingApp = pendingApp \<and>
   handleAction_settle ''1000'' (Inr ''late answer'') (removeInsight ''1000'' pendingApp)
     = selectedApp"
  using C5_missing_id_dropped [of "''1001''" pendingApp "Inr ''late answer''"]
    C5_missing_id_dropped [of "''1000''" pendingApp "Inr ''late answer''"]
  by (simp add: pendingApp_def selectedApp_def handleAction_settle_def completeInsight_def
        removeInsight_def)

section \<open>The service never rejects\<close>




section \<open>Identifiers from the clock\<close>

lemma selectedSession_reachable:
  "run pageCapture selectingEvents initialSession = selectedSession"
  by (simp add: run_def selectingEvents_def step_def initialSession_def initialApp_def
        initialViewer_def handleFileUpload_def fileEffect_def loadSettled_def setPdfDoc_def
        onPage_def handleMouseDown_def handleMouseMove_def handleMouseUp_def
        handleSelectionStart_def selectionActiveEffect_def getCanvasCoordinates_def
        handleSelectionComplete_def origin_def mouseAt_def pageCapture_def pngCapture_def
        initialPage_def selectedSession_def selectedApp_def selectedViewer_def
        sampleSelection_def Let_def numeral_3_eq_3)

lemma digit_char_inj:
  assumes "a < 10" and "b < 10" and "digit_char a = digit_char b"
  shows "a = b"
proof -
  from assms(3) have "(48 + a) mod 256 = (48 + b) mod 256"
    by (simp add: digit_char_def)
  with assms(1,2) show ?thesis by simp
qed

lemma toString_length: "0 < length (toString n)"
  by (subst toString.simps) simp

lemma toString_small: "n < 10 \<Longrightarrow> toString n = [digit_char n]"
  by (subst toString.simps) simp

lemma toString_large:
  "\<not> n < 10 \<Longrightarrow> toString n = toString (n div 10) @ [digit_char (n mod 10)]"
  by (subst toString.simps) simp

lemma toString_inj: "toString n = toString m \<Longrightarrow> n = m"
proof (induction n arbitrary: m rule: toString.induct)
  case (1 n)
  show ?case
  proof (cases "n < 10")
    case True
    note n = this
    show ?thesis
    proof (cases "m < 10")
      case True
      with n "1.prems" show ?thesis
        by (simp add: toString_small digit_char_inj)
    next
      case False
      have "length (toString m) = Suc (length (toString (m div 10)))"
        by (simp add: toString_large [OF False])
      moreover have "length (toString n) = 1"
        by (simp add: toString_small [OF n])
      ultimately show ?thesis
        using "1.prems" toString_length [of "m div 10"] by simp
    qed
  next
    case False
    note n = this
    show ?thesis
    proof (cases "m < 10")
      case True
      have "length (toString n) = Suc (length (toString (n div 10)))"
        by (simp add: toString_large [OF n])
      moreover have "length (toString m) = 1"
        by (simp add: toString_small [OF True])
      ultimately show ?thesis
        using "1.prems" toString_length [of "n div 10"] by simp
    next
      case False
      from "1.prems" have eq: "toString (n div 10) @ [digit_char (n mod 10)]
                             = toString (m div 10) @ [digit_char (m mod 10)]"
        by (simp add: toString_large [OF n] toString_large [OF False])
      then have "toString (n div 10) = toString (m div 10)"
        and d: "digit_char (n mod 10) = digit_char (m mod 10)"
        by simp_all
      then have "n div 10 = m div 10"
        using "1.IH" [OF n] by simp
      moreover have "n mod 10 = m mod 10"
        using d by (intro digit_char_inj) simp_all
      ultimately show ?thesis
        by (metis div_mult_mod_eq)
    qed
  qed
qed

lemma completeInsight_map: "completeInsight k c xs = map (settleEntry k c) xs"
  by (simp add: completeInsight_def settleEntry_def)

lemma settleEntry_id: "insight_id (settleEntry k c i) = insight_id i"
  by (simp add: settleEntry_def)

lemma settleEntry_other: "insight_id i \<noteq> k \<Longrightarrow> settleEntry k c i = i"
  by (simp add: settleEntry_def)

lemma settleEntry_commute:
  assumes "k1 \<noteq> k2"
  shows "settleEntry k1 c1 (settleEntry k2 c2 i) = settleEntry k2 c2 (settleEntry k1 c1 i)"
proof (cases "insight_id i = k1")
  case True
  with assms have "insight_id i \<noteq> k2" by simp
  then show ?thesis by (simp add: settleEntry_other settleEntry_id)
next
  case False
  then show ?thesis by (simp add: settleEntry_other settleEntry_id)
qed

lemma completeInsight_other:
  assumes "i \<in> set xs" and "insight_id i \<noteq> k"
  shows "i \<in> set (completeInsight k c xs)"
proof -
  have "settleEntry k c i \<in> set (map (settleEntry k c) xs)"
    using assms(1) by simp
  then show ?thesis
    by (simp only: completeInsight_map settleEntry_other [OF assms(2)])
qed

lemma completeInsight_commute:
  assumes "k1 \<noteq> k2"
  shows "completeInsight k1 c1 (completeInsight k2 c2 xs)
           = completeInsight k2 c2 (completeInsight k1 c1 xs)"
  by (simp only: completeInsight_map map_map o_def settleEntry_commute [OF assms])

text \<open>
  C2, at two actions whose clock readings agree: both entries carry the same id.
\<close>

theorem C2_same_reading_same_id:
  "map insight_id
     (insights (app (run pageCapture [Action EXPLAIN 1000 1000, Action CODE 1000 1000]
                       selectedSession)))
     = [toString 1000, toString 1000]"
  by (simp add: run_def step_def handleAction_start_def newInsight_def selectedSession_def
        selectedApp_def Let_def)

text \<open>
  C3, at two requests whose entries share an id: each completion overwrites both
  entries, so the final contents depend on the order of the completions.
\<close>

theorem C3_shared_id_swaps_content:
  "map content
     (insights (app (run pageCapture
        [Action EXPLAIN 1000 1000, Action CODE 1000 1000,
         Settled (toString 1000) (Inr ''an explanation''),
         Settled (toString 1000) (Inr ''some code'')] selectedSession)))
     = [''some code'', ''some code''] \<and>
   map content
     (insights (app (run pageCapture
        [Action EXPLAIN 1000 1000, Action CODE 1000 1000,
         Settled (toString 1000) (Inr ''some code''),
         Settled (toString 1000) (Inr ''an explanation'')] selectedSession)))
     = [''an explanation'', ''an explanation'']"
  by (simp add: run_def step_def handleAction_start_def handleAction_settle_def
        completeInsight_def newInsight_def selectedSession_def selectedApp_def Let_def)

section \<open>Loading a document\<close>

lemma upload_viewer: "viewer (step capture (Upload files) s) = viewer s"
proof (cases "app_file (handleFileUpload files (app s)) = app_file (app s)")
  case True
  then show ?thesis by (simp add: step_def Let_def)
next
  case False
  then obtain f where "app_file (handleFileUpload files (app s)) = Some f"
    by (cases files; cases "the files") (simp_all add: handleFileUpload_def)
  with False show ?thesis by (simp add: step_def Let_def fileEffect_def)
qed

lemma upload_app:
  "app (step capture (Upload (Some (f # fs))) s)
     = (app s)\<lparr>app_file := Some f, insights := [], currentSelection := None\<rparr>"
  by (simp add: step_def Let_def handleFileUpload_def)

lemma parse_app: "app (step capture (ParseSettled r) s) = app s"
  by (simp add: step_def)

lemma parse_viewer: "viewer (step capture (ParseSettled r) s) = loadSettled r (viewer s)"
  by (simp add: step_def)

lemma loadSettled_marker: "activeSelectionPage (loadSettled r v) = activeSelectionPage v"
  by (cases r) (simp_all add: loadSettled_def setPdfDoc_def)

lemma run_two: "run capture [e1, e2] s = step capture e2 (step capture e1 s)"
  by (simp add: run_def)

text \<open>
  C8, as amended. An upload that carries a file sets the committed selection to null and
  the insight list to empty, at once and still when the parse of the new document has
  succeeded, and the new document is then the loaded one.
\<close>

theorem C8_upload_resets:
  "currentSelection (app (step capture (Upload (Some (f # fs))) s)) = None \<and>
   insights (app (step capture (Upload (Some (f # fs))) s)) = [] \<and>
   currentSelection (app (run capture [Upload (Some (f # fs)), ParseSettled (Inr doc)] s)) = None \<and>
   insights (app (run capture [Upload (Some (f # fs)), ParseSettled (Inr doc)] s)) = [] \<and>
   pdfDoc (viewer (run capture [Upload (Some (f # fs)), ParseSettled (Inr doc)] s)) = Some doc"
  by (simp add: run_two upload_app parse_app parse_viewer loadSettled_def setPdfDoc_def)

theorem C8_upload_resets_witness:
  "insights (app (run pageCapture [Action EXPLAIN 1000 1000] selectedSession)) \<noteq> [] \<and>
   currentSelection (app (run pageCapture [Action EXPLAIN 1000 1000] selectedSession)) \<noteq> None \<and>
   insights (app (run pageCapture [Upload (Some [''other.pdf'']), ParseSettled (Inr \<lparr>numPages = 2\<rparr>)]
                    (run pageCapture [Action EXPLAIN 1000 1000] selectedSession))) = [] \<and>
   currentSelection
     (app (run pageCapture [Upload (Some [''other.pdf'']), ParseSettled (Inr \<lparr>numPages = 2\<rparr>)]
             (run pageCapture [Action EXPLAIN 1000 1000] selectedSession))) = None"
  using C8_upload_resets
    [of pageCapture "''other.pdf''" "[]" "run pageCapture [Action EXPLAIN 1000 1000] selectedSession"
        "\<lparr>numPages = 2\<rparr>"]
  by (simp add: run_def step_def handleAction_start_def selectedSession_def selectedApp_def Let_def)

text \<open>
  From the session with a selection on page 1, after the upload and the successful parse
  of another document: the marker is still page 1, so the three resets do not all hold.
\<close>

theorem C8_marker_counterexample:
  "\<not> (currentSelection
        (app (run pageCapture [Upload (Some [''other.pdf'']), ParseSettled (Inr \<lparr>numPages = 2\<rparr>)]
                selectedSession)) = None \<and>
      insights
        (app (run pageCapture [Upload (Some [''other.pdf'']), ParseSettled (Inr \<lparr>numPages = 2\<rparr>)]
                selectedSession)) = [] \<and>
      activeSelectionPage
        (viewer (run pageCapture [Upload (Some [''other.pdf'']), ParseSettled (Inr \<lparr>numPages = 2\<rparr>)]
                   selectedSession)) = None)"
  by (simp add: run_two upload_viewer parse_viewer loadSettled_marker selectedSession_def
        selectedViewer_def)

text \<open>The page component of page 1 survives the swap with its box.\<close>

lemma stale_overlay_after_load:
  "overlayPages
     (viewer (run pageCapture [Upload (Some [''other.pdf'']), ParseSettled (Inr \<lparr>numPages = 2\<rparr>)]
                selectedSession)) = [1]"
  by (simp add: run_two upload_viewer parse_viewer loadSettled_def setPdfDoc_def
        selectedSession_def selectedViewer_def overlayPages_def initialPage_def numeral_2_eq_2)

text \<open>
  C9, as amended. In a session without a document, a load attempt whose parse fails
  leaves the viewer as it was: no document, no change of state, no failure of the
  handler; and a later upload that parses is loaded.
\<close>

theorem C9_failed_parse_keeps_empty:
  assumes "pdfDoc (viewer s) = None"
  shows "pdfDoc (viewer (run capture [Upload (Some (f # fs)), ParseSettled (Inl e)] s)) = None \<and>
         viewer (run capture [Upload (Some (f # fs)), ParseSettled (Inl e)] s) = viewer s \<and>
         pdfDoc (viewer (run capture [Upload (Some (f' # fs')), ParseSettled (Inr doc)]
                   (run capture [Upload (Some (f # fs)), ParseSettled (Inl e)] s))) = Some doc"
  using assms
  by (simp add: run_two upload_viewer parse_viewer loadSettled_def setPdfDoc_def)

theorem C9_failed_parse_keeps_empty_witness:
  "pdfDoc (viewer initialSession) = None \<and>
   viewer (run pageCapture [Upload (Some [''broken.pdf'']),
                            ParseSettled (Inl (ErrorObject ''Invalid PDF structure''))]
             initialSession) = initialViewer \<and>
   pdfDoc (viewer (run pageCapture [Upload (Some [''paper.pdf'']), ParseSettled (Inr \<lparr>numPages = 3\<rparr>)]
             (run pageCapture [Upload (Some [''broken.pdf'']),
                            ParseSettled (Inl (ErrorObject ''Invalid PDF structure''))]
             initialSession))) = Some \<lparr>numPages = 3\<rparr>"
  using C9_failed_parse_keeps_empty
    [of initialSession pageCapture "''broken.pdf''" "[]" "ErrorObject ''Invalid PDF structure''"
        "''paper.pdf''" "[]" "\<lparr>numPages = 3\<rparr>"]
  by (simp add: initialSession_def initialViewer_def)

text \<open>
  With a document loaded, the failed parse of the next upload leaves the previous
  document in the viewer.
\<close>

theorem C9_previous_document_counterexample:
  "pdfDoc (viewer (run pageCapture [Upload (Some [''broken.pdf'']),
                                    ParseSettled (Inl (ErrorObject ''Invalid PDF structure''))]
                     selectedSession)) \<noteq> None"
  by (simp add: run_two upload_viewer parse_viewer loadSettled_def selectedSession_def
        selectedViewer_def)

section \<open>One selection overlay at a time\<close>

lemma runEffects_length: "length (runEffects old new n pss) = length pss"
  by (induction pss arbitrary: n) simp_all

lemma runEffects_nth:
  "i < length pss \<Longrightarrow>
   runEffects old new n pss ! i = selectionActiveEffect old new (n + i) (pss ! i)"
proof (induction pss arbitrary: n i)
  case Nil
  then show ?case by simp
next
  case (Cons ps pss)
  show ?case
  proof (cases i)
    case 0
    then show ?thesis by simp
  next
    case (Suc j)
    with Cons.prems have "j < length pss" by simp
    from Cons.IH [OF this, of "Suc n"] Suc show ?thesis by simp
  qed
qed

lemma effect_isSelecting:
  "isSelecting (selectionActiveEffect old new n ps) = isSelecting ps"
  by (simp add: selectionActiveEffect_def)

lemma effect_box:
  "selectionBox (selectionActiveEffect old new n ps) =
     (if old = Some n \<and> new \<noteq> Some n then None else selectionBox ps)"
  by (simp add: selectionActiveEffect_def)

lemma down_state:
  "isSelecting (snd (handleMouseDown p c e ps)) \<and>
   selectionBox (snd (handleMouseDown p c e ps)) \<noteq> None \<and>
   fst (handleMouseDown p c e ps) = p"
  by (simp add: handleMouseDown_def Let_def)

lemma move_state:
  "isSelecting (handleMouseMove c e ps) = isSelecting ps \<and>
   (selectionBox (handleMouseMove c e ps) \<noteq> None \<longrightarrow>
      selectionBox ps \<noteq> None \<or> isSelecting ps)"
  by (simp add: handleMouseMove_def Let_def split: option.splits)

lemma up_state:
  "\<not> isSelecting (fst (handleMouseUp p c capture ps)) \<and>
   (selectionBox (fst (handleMouseUp p c capture ps)) \<noteq> None \<longrightarrow> selectionBox ps \<noteq> None)"
  by (simp add: handleMouseUp_def Let_def split: option.splits)

lemma pageInvI:
  assumes "\<And>i. i < length (pages v) \<Longrightarrow> isSelecting (pages v ! i) \<Longrightarrow>
              cur = Some (Suc i) \<and> activeSelectionPage v = Some (Suc i)"
    and "\<And>i. i < length (pages v) \<Longrightarrow> selectionBox (pages v ! i) \<noteq> None \<Longrightarrow>
              activeSelectionPage v = Some (Suc i)"
  shows "pageInv cur v"
  unfolding pageInv_def using assms by blast

lemma pageInv_selecting:
  "pageInv cur v \<Longrightarrow> i < length (pages v) \<Longrightarrow> isSelecting (pages v ! i) \<Longrightarrow>
   cur = Some (Suc i) \<and> activeSelectionPage v = Some (Suc i)"
  unfolding pageInv_def by blast

lemma pageInv_box:
  "pageInv cur v \<Longrightarrow> i < length (pages v) \<Longrightarrow> selectionBox (pages v ! i) \<noteq> None \<Longrightarrow>
   activeSelectionPage v = Some (Suc i)"
  unfolding pageInv_def by blast

lemma onPage_unmounted:
  "\<not> (1 \<le> p \<and> p \<le> length (pages v)) \<Longrightarrow> onPage capture p r pe v = (v, [])"
  unfolding onPage_def by (rule if_not_P)

lemma onPage_down:
  assumes "1 \<le> p" and "p \<le> length (pages v)"
  shows "activeSelectionPage (fst (onPage capture p r (Down e) v)) = Some p"
    and "pages (fst (onPage capture p r (Down e) v)) =
           runEffects (activeSelectionPage v) (Some p) 1
             ((pages v)[p - 1 := snd (handleMouseDown p (Some r) e (pages v ! (p - 1)))])"
  using assms by (simp_all add: onPage_def Let_def handleSelectionStart_def down_state)

lemma onPage_move:
  assumes "1 \<le> p" and "p \<le> length (pages v)"
  shows "activeSelectionPage (fst (onPage capture p r (Move e) v)) = activeSelectionPage v"
    and "pages (fst (onPage capture p r (Move e) v)) =
           (pages v)[p - 1 := handleMouseMove (Some r) e (pages v ! (p - 1))]"
  using assms by (simp_all add: onPage_def Let_def)

lemma onPage_up:
  assumes "1 \<le> p" and "p \<le> length (pages v)" and "pe = Up \<or> pe = Leave"
  shows "activeSelectionPage (fst (onPage capture p r pe v)) = activeSelectionPage v"
    and "pages (fst (onPage capture p r pe v)) =
           (pages v)[p - 1 := fst (handleMouseUp p (Some r) (capture p) (pages v ! (p - 1)))]"
  using assms by (auto simp add: onPage_def Let_def)

lemma onPage_inv:
  assumes inv: "pageInv cur v" and ok: "cur = None \<or> cur = Some p"
  shows "pageInv (if pe = Leave then None else Some p) (fst (onPage capture p r pe v))"
proof (cases "1 \<le> p \<and> p \<le> length (pages v)")
  case False
  have idle: "\<not> isSelecting (pages v ! i)" if "i < length (pages v)" for i
  proof
    assume "isSelecting (pages v ! i)"
    from pageInv_selecting [OF inv that this] ok have "p = Suc i" by simp
    with that False show False by simp
  qed
  show ?thesis
    unfolding onPage_unmounted [OF False] fst_conv
    by (rule pageInvI) (simp_all add: idle pageInv_box [OF inv])
next
  case True
  define k where "k = p - 1"
  from True have k: "k < length (pages v)" and p: "p = Suc k"
    unfolding k_def by arith+
  have idle: "\<not> isSelecting (pages v ! i)" if "i < length (pages v)" and "i \<noteq> k" for i
  proof
    assume "isSelecting (pages v ! i)"
    from pageInv_selecting [OF inv that(1) this] ok have "p = Suc i" by simp
    with p that(2) show False by simp
  qed
  from True have m1: "1 \<le> p" and m2: "p \<le> length (pages v)" by simp_all
  have released: "pageInv c' (fst (onPage capture p r pe' v))" if ul: "pe' = Up \<or> pe' = Leave"
    for c' pe'
  proof -
    let ?v' = "fst (onPage capture p r pe' v)"
    let ?u = "fst (handleMouseUp p (Some r) (capture p) (pages v ! k))"
    have act: "activeSelectionPage ?v' = activeSelectionPage v"
      by (rule onPage_up(1) [OF m1 m2 ul])
    have pgs: "pages ?v' = (pages v)[k := ?u]"
      unfolding k_def by (rule onPage_up(2) [OF m1 m2 ul])
    show ?thesis
    proof (rule pageInvI)
      fix i assume i: "i < length (pages ?v')" and sel: "isSelecting (pages ?v' ! i)"
      from i pgs have i': "i < length (pages v)" by simp
      have False
      proof (cases "i = k")
        case True
        with sel k show False by (simp add: pgs up_state)
      next
        case False
        with sel i' idle [OF i'] show False by (simp add: pgs)
      qed
      then show "c' = Some (Suc i) \<and> activeSelectionPage ?v' = Some (Suc i)" ..
    next
      fix i assume i: "i < length (pages ?v')" and box: "selectionBox (pages ?v' ! i) \<noteq> None"
      from i pgs have i': "i < length (pages v)" by simp
      have "selectionBox (pages v ! i) \<noteq> None"
      proof (cases "i = k")
        case True
        with box k have "selectionBox ?u \<noteq> None" by (simp add: pgs)
        with up_state [of p "Some r" "capture p" "pages v ! k"] True show ?thesis by blast
      next
        case False
        with box i' show ?thesis by (simp add: pgs)
      qed
      from pageInv_box [OF inv i' this] act
      show "activeSelectionPage ?v' = Some (Suc i)" by simp
    qed
  qed
  show ?thesis
  proof (cases pe)
    case (Down e)
    let ?v' = "fst (onPage capture p r (Down e) v)"
    let ?d = "snd (handleMouseDown p (Some r) e (pages v ! k))"
    have act: "activeSelectionPage ?v' = Some p"
      by (rule onPage_down(1) [OF m1 m2])
    have pgs: "pages ?v' = runEffects (activeSelectionPage v) (Some p) 1 ((pages v)[k := ?d])"
      unfolding k_def by (rule onPage_down(2) [OF m1 m2])
    have len: "length (pages ?v') = length (pages v)"
      by (simp add: pgs runEffects_length)
    have nth: "pages ?v' ! i =
        selectionActiveEffect (activeSelectionPage v) (Some p) (Suc i) ((pages v)[k := ?d] ! i)"
      if "i < length (pages v)" for i
      using that by (simp add: pgs runEffects_nth)
    have "pageInv (Some p) ?v'"
    proof (rule pageInvI)
      fix i assume i: "i < length (pages ?v')" and sel: "isSelecting (pages ?v' ! i)"
      from i len have i': "i < length (pages v)" by simp
      have "i = k"
      proof (rule ccontr)
        assume "i \<noteq> k"
        with sel i' idle [OF i'] show False
          by (simp add: nth [OF i'] effect_isSelecting)
      qed
      with p act show "Some p = Some (Suc i) \<and> activeSelectionPage ?v' = Some (Suc i)"
        by simp
    next
      fix i assume i: "i < length (pages ?v')" and box: "selectionBox (pages ?v' ! i) \<noteq> None"
      from i len have i': "i < length (pages v)" by simp
      have "i = k"
      proof (rule ccontr)
        assume ik: "i \<noteq> k"
        with box i' have b: "selectionBox (pages v ! i) \<noteq> None"
          and e: "\<not> (activeSelectionPage v = Some (Suc i) \<and> Some p \<noteq> Some (Suc i))"
          by (simp_all add: nth [OF i'] effect_box split: if_splits)
        from pageInv_box [OF inv i' b] e have "p = Suc i" by simp
        with p ik show False by simp
      qed
      with p act show "activeSelectionPage ?v' = Some (Suc i)" by simp
    qed
    with Down show ?thesis by simp
  next
    case (Move e)
    let ?v' = "fst (onPage capture p r (Move e) v)"
    let ?m = "handleMouseMove (Some r) e (pages v ! k)"
    have act: "activeSelectionPage ?v' = activeSelectionPage v"
      by (rule onPage_move(1) [OF m1 m2])
    have pgs: "pages ?v' = (pages v)[k := ?m]"
      unfolding k_def by (rule onPage_move(2) [OF m1 m2])
    have "pageInv (Some p) ?v'"
    proof (rule pageInvI)
      fix i assume i: "i < length (pages ?v')" and sel: "isSelecting (pages ?v' ! i)"
      from i pgs have i': "i < length (pages v)" by simp
      have ik: "i = k"
      proof (rule ccontr)
        assume "i \<noteq> k"
        with sel i' idle [OF i'] show False by (simp add: pgs)
      qed
      with sel k have "isSelecting (pages v ! k)"
        by (simp add: pgs move_state)
      from pageInv_selecting [OF inv k this] ik p act
      show "Some p = Some (Suc i) \<and> activeSelectionPage ?v' = Some (Suc i)" by simp
    next
      fix i assume i: "i < length (pages ?v')" and box: "selectionBox (pages ?v' ! i) \<noteq> None"
      from i pgs have i': "i < length (pages v)" by simp
      show "activeSelectionPage ?v' = Some (Suc i)"
      proof (cases "i = k")
        case True
        with box k have "selectionBox ?m \<noteq> None" by (simp add: pgs)
        with move_state [of "Some r" e "pages v ! k"]
        have "selectionBox (pages v ! k) \<noteq> None \<or> isSelecting (pages v ! k)" by blast
        then have "activeSelectionPage v = Some (Suc k)"
          using pageInv_box [OF inv k] pageInv_selecting [OF inv k] by blast
        with True act show ?thesis by simp
      next
        case False
        with box i' have "selectionBox (pages v ! i) \<noteq> None" by (simp add: pgs)
        from pageInv_box [OF inv i' this] act show ?thesis by simp
      qed
    qed
    with Move show ?thesis by simp
  next
    case Up
    have "pageInv (Some p) (fst (onPage capture p r Up v))"
      by (rule released) simp
    with Up show ?thesis by simp
  next
    case Leave
    have "pageInv None (fst (onPage capture p r Leave v))"
      by (rule released) simp
    with Leave show ?thesis by simp
  qed
qed

lemma setPdfDoc_inv:
  assumes inv: "pageInv cur v"
  shows "pageInv (case cur of None \<Rightarrow> None
                  | Some q \<Rightarrow> if q \<le> numPages doc then Some q else None)
           (setPdfDoc (Some doc) v)"
proof -
  let ?v' = "setPdfDoc (Some doc) v"
  let ?n = "numPages doc"
  have act: "activeSelectionPage ?v' = activeSelectionPage v"
    by (simp add: setPdfDoc_def)
  have pgs: "pages ?v' = take ?n (pages v) @ replicate (?n - length (pages v)) initialPage"
    by (simp add: setPdfDoc_def)
  have kept: "i < length (pages v) \<and> i < ?n \<and> pages ?v' ! i = pages v ! i"
    if "i < length (pages ?v')" and "pages ?v' ! i \<noteq> initialPage" for i
  proof (cases "i < length (take ?n (pages v))")
    case True
    then show ?thesis by (simp add: pgs nth_append)
  next
    case False
    from that(1) False have "i - length (take ?n (pages v)) < ?n - length (pages v)"
      by (simp add: pgs, arith)
    then have "replicate (?n - length (pages v)) initialPage ! (i - length (take ?n (pages v)))
                 = initialPage"
      by (rule nth_replicate)
    with False have "pages ?v' ! i = initialPage"
      by (simp only: pgs nth_append if_False)
    with that(2) show ?thesis by simp
  qed
  show ?thesis
  proof (rule pageInvI)
    fix i assume i: "i < length (pages ?v')" and sel: "isSelecting (pages ?v' ! i)"
    then have "pages ?v' ! i \<noteq> initialPage"
      by (auto simp add: initialPage_def)
    from kept [OF i this] have i': "i < length (pages v)" and n: "i < ?n"
      and same: "pages ?v' ! i = pages v ! i" by simp_all
    from pageInv_selecting [OF inv i'] sel same n act
    show "(case cur of None \<Rightarrow> None | Some q \<Rightarrow> if q \<le> ?n then Some q else None) = Some (Suc i)
          \<and> activeSelectionPage ?v' = Some (Suc i)"
      by simp
  next
    fix i assume i: "i < length (pages ?v')" and box: "selectionBox (pages ?v' ! i) \<noteq> None"
    then have "pages ?v' ! i \<noteq> initialPage"
      by (auto simp add: initialPage_def)
    from kept [OF i this] have i': "i < length (pages v)"
      and same: "pages ?v' ! i = pages v ! i" by simp_all
    from pageInv_box [OF inv i'] box same act
    show "activeSelectionPage ?v' = Some (Suc i)" by simp
  qed
qed

lemma pageInv_no_pages: "pages v = [] \<Longrightarrow> pageInv cur v"
  by (simp add: pageInv_def)

lemma step_inv:
  assumes inv: "pageInv cur (viewer s)" and ok: "pointerOk cur ev"
  shows "pageInv (pointerNext cur ev) (viewer (step capture ev s))"
proof (cases ev)
  case (Upload files)
  have "viewer (step capture (Upload files) s) = viewer s
        \<or> pages (viewer (step capture (Upload files) s)) = []"
    by (simp add: step_def Let_def fileEffect_def setPdfDoc_def split: option.splits)
  with inv Upload show ?thesis
    by (auto simp add: pointerNext_def pageInv_no_pages)
next
  case (ParseSettled res)
  show ?thesis
  proof (cases res)
    case (Inl e)
    with ParseSettled inv show ?thesis
      by (simp add: pointerNext_def step_def loadSettled_def)
  next
    case (Inr doc)
    with ParseSettled setPdfDoc_inv [OF inv, of doc] show ?thesis
      by (simp add: pointerNext_def step_def loadSettled_def)
  qed
next
  case (Pointer p r pe)
  with ok have "cur = None \<or> cur = Some p"
    by (simp add: pointerOk_def split: option.splits)
  from onPage_inv [OF inv this, of pe capture r] Pointer show ?thesis
    by (simp add: pointerNext_def step_def Let_def)
next
  case (Action ty n1 n2)
  with inv show ?thesis by (simp add: pointerNext_def step_def)
next
  case (Settled k res)
  with inv show ?thesis by (simp add: pointerNext_def step_def)
next
  case (Remove k)
  with inv show ?thesis by (simp add: pointerNext_def step_def)
next
  case Cancel
  with inv show ?thesis by (simp add: pointerNext_def step_def)
qed

lemma run_Cons: "run capture (ev # evs) s = run capture evs (step capture ev s)"
  by (simp add: run_def)

lemma run_snoc: "run capture (evs @ [ev]) s = step capture ev (run capture evs s)"
  by (simp add: run_def)

lemma run_inv:
  "pageInv cur (viewer s) \<Longrightarrow> pointerTrace cur evs \<Longrightarrow>
   \<exists>cur'. pageInv cur' (viewer (run capture evs s))"
proof (induction evs arbitrary: cur s)
  case Nil
  then show ?case by (auto simp add: run_def)
next
  case (Cons ev evs)
  from Cons.prems have ok: "pointerOk cur ev" and rest: "pointerTrace (pointerNext cur ev) evs"
    by simp_all
  from Cons.IH [OF step_inv [OF Cons.prems(1) ok] rest]
  show ?case by (simp add: run_Cons)
qed

lemma overlayFrom_none:
  "(\<And>i. i < length pss \<Longrightarrow> selectionBox (pss ! i) = None) \<Longrightarrow> overlayFrom n pss = []"
proof (induction pss arbitrary: n)
  case Nil
  show ?case by simp
next
  case (Cons ps pss)
  from Cons.prems [of 0] have "selectionBox ps = None" by simp
  moreover have "overlayFrom (Suc n) pss = []"
  proof (rule Cons.IH)
    fix i assume "i < length pss"
    with Cons.prems [of "Suc i"] show "selectionBox (pss ! i) = None" by simp
  qed
  ultimately show ?case by simp
qed

lemma overlayFrom_unique:
  "(\<And>i. i < length pss \<Longrightarrow> selectionBox (pss ! i) \<noteq> None \<Longrightarrow> n + i = k) \<Longrightarrow>
   length (overlayFrom n pss) \<le> 1"
proof (induction pss arbitrary: n)
  case Nil
  show ?case by simp
next
  case (Cons ps pss)
  show ?case
  proof (cases "selectionBox ps")
    case None
    have "length (overlayFrom (Suc n) pss) \<le> 1"
    proof (rule Cons.IH)
      fix i assume "i < length pss" and "selectionBox (pss ! i) \<noteq> None"
      with Cons.prems [of "Suc i"] show "Suc n + i = k" by simp
    qed
    with None show ?thesis by simp
  next
    case (Some b)
    with Cons.prems [of 0] have nk: "n = k" by simp
    have "overlayFrom (Suc n) pss = []"
    proof (rule overlayFrom_none)
      fix i assume i: "i < length pss"
      show "selectionBox (pss ! i) = None"
      proof (rule ccontr)
        assume "selectionBox (pss ! i) \<noteq> None"
        with Cons.prems [of "Suc i"] i nk show False by simp
      qed
    qed
    with Some show ?thesis by simp
  qed
qed

lemma overlayFrom_member:
  "i < length pss \<Longrightarrow> selectionBox (pss ! i) \<noteq> None \<Longrightarrow> n + i \<in> set (overlayFrom n pss)"
proof (induction pss arbitrary: n i)
  case Nil
  then show ?case by simp
next
  case (Cons ps pss)
  show ?case
  proof (cases i)
    case 0
    with Cons.prems show ?thesis by (auto split: option.splits)
  next
    case (Suc j)
    with Cons.prems have "Suc n + j \<in> set (overlayFrom (Suc n) pss)"
      by (intro Cons.IH) simp_all
    with Suc show ?thesis by (simp split: option.splits)
  qed
qed

lemma pageInv_single_overlay:
  assumes "pageInv cur v"
  shows "length (overlayPages v) \<le> 1"
proof (cases "activeSelectionPage v")
  case None
  have "overlayFrom 1 (pages v) = []"
  proof (rule overlayFrom_none)
    fix i assume i: "i < length (pages v)"
    show "selectionBox (pages v ! i) = None"
    proof (rule ccontr)
      assume "selectionBox (pages v ! i) \<noteq> None"
      from pageInv_box [OF assms i this] None show False by simp
    qed
  qed
  then show ?thesis by (simp add: overlayPages_def)
next
  case (Some a)
  have "length (overlayFrom 1 (pages v)) \<le> 1"
  proof (rule overlayFrom_unique [where k = a])
    fix i assume i: "i < length (pages v)" and "selectionBox (pages v ! i) \<noteq> None"
    from pageInv_box [OF assms this] Some show "1 + i = a" by simp
  qed
  then show ?thesis by (simp add: overlayPages_def)
qed

lemma down_shows_overlay:
  assumes "1 \<le> p" and "p \<le> length (pages v)"
  shows "p \<in> set (overlayPages (fst (onPage capture p r (Down e) v)))"
proof -
  let ?v' = "fst (onPage capture p r (Down e) v)"
  let ?d = "snd (handleMouseDown p (Some r) e (pages v ! (p - 1)))"
  from assms have k: "p - 1 < length (pages v)" by arith
  have pgs: "pages ?v' = runEffects (activeSelectionPage v) (Some p) 1 ((pages v)[p - 1 := ?d])"
    by (rule onPage_down(2) [OF assms])
  have "pages ?v' ! (p - 1) = selectionActiveEffect (activeSelectionPage v) (Some p)
          (1 + (p - 1)) (((pages v)[p - 1 := ?d]) ! (p - 1))"
    unfolding pgs using k by (intro runEffects_nth) simp
  with assms(1) k have "selectionBox (pages ?v' ! (p - 1)) \<noteq> None"
    by (simp add: effect_box down_state)
  moreover have "p - 1 < length (pages ?v')"
    using k by (simp add: pgs runEffects_length)
  ultimately have "1 + (p - 1) \<in> set (overlayFrom 1 (pages ?v'))"
    by (intro overlayFrom_member)
  with assms(1) show ?thesis by (simp add: overlayPages_def)
qed

lemma initial_inv: "pageInv None (viewer initialSession)"
  by (simp add: pageInv_def initialSession_def initialViewer_def)

lemma single_member: "length xs \<le> 1 \<Longrightarrow> x \<in> set xs \<Longrightarrow> xs = [x]"
  by (cases xs) auto

text \<open>
  C7. In every state reached from the initial session by events of one mouse pointer,
  at most one page shows a selection overlay; and right after a pointer-down on a
  mounted page, that page is the only one that shows one.
\<close>

theorem C7_single_overlay:
  assumes "pointerTrace None evs"
  shows "length (overlayPages (viewer (run capture evs initialSession))) \<le> 1 \<and>
         (\<forall>evs' B r e.
            evs = evs' @ [Pointer B r (Down e)] \<and> 1 \<le> B \<and>
            B \<le> length (pages (viewer (run capture evs' initialSession))) \<longrightarrow>
            overlayPages (viewer (run capture evs initialSession)) = [B])"
proof -
  from run_inv [OF initial_inv assms, of capture]
  obtain c where "pageInv c (viewer (run capture evs initialSession))" ..
  then have one: "length (overlayPages (viewer (run capture evs initialSession))) \<le> 1"
    by (rule pageInv_single_overlay)
  have "overlayPages (viewer (run capture evs initialSession)) = [B]"
    if "evs = evs' @ [Pointer B r (Down e)]" and "1 \<le> B"
      and "B \<le> length (pages (viewer (run capture evs' initialSession)))" for evs' B r e
  proof -
    have "viewer (run capture evs initialSession)
            = fst (onPage capture B r (Down e) (viewer (run capture evs' initialSession)))"
      unfolding that(1) run_snoc by (simp add: step_def Let_def)
    with down_shows_overlay [OF that(2,3), of capture r e]
    have "B \<in> set (overlayPages (viewer (run capture evs initialSession)))" by simp
    with one show ?thesis by (rule single_member)
  qed
  with one show ?thesis by blast
qed

lemma run_append: "run capture (xs @ ys) s = run capture ys (run capture xs s)"
  by (simp add: run_def)

lemma selectingEvents_trace:
  "pointerTrace None
     (selectingEvents @ [Pointer 1 origin Leave, Pointer 2 origin (Down (mouseAt 10 10))])"
  by (simp add: selectingEvents_def pointerOk_def pointerNext_def)

lemma selectedSession_overlay: "overlayPages (viewer selectedSession) = [1]"
  by (simp add: selectedSession_def selectedViewer_def overlayPages_def initialPage_def)

theorem C7_single_overlay_witness:
  "pointerTrace None
     (selectingEvents @ [Pointer 1 origin Leave, Pointer 2 origin (Down (mouseAt 10 10))]) \<and>
   overlayPages (viewer (run pageCapture selectingEvents initialSession)) = [1] \<and>
   overlayPages
     (viewer (run pageCapture
        (selectingEvents @ [Pointer 1 origin Leave, Pointer 2 origin (Down (mouseAt 10 10))])
        initialSession)) = [2]"
proof -
  have mounted: "2 \<le> length (pages (viewer (run pageCapture
                    (selectingEvents @ [Pointer 1 origin Leave]) initialSession)))"
    unfolding run_append selectedSession_reachable
    by (simp add: run_def step_def onPage_def handleMouseUp_def selectedSession_def
          selectedViewer_def Let_def)
  have parts: "selectingEvents @ [Pointer 1 origin Leave, Pointer 2 origin (Down (mouseAt 10 10))]
      = (selectingEvents @ [Pointer 1 origin Leave]) @ [Pointer 2 origin (Down (mouseAt 10 10))]"
    by simp
  from C7_single_overlay [OF selectingEvents_trace, of pageCapture]
  have "\<forall>evs' B r e.
          selectingEvents @ [Pointer 1 origin Leave, Pointer 2 origin (Down (mouseAt 10 10))]
            = evs' @ [Pointer B r (Down e)] \<and> 1 \<le> B \<and>
          B \<le> length (pages (viewer (run pageCapture evs' initialSession))) \<longrightarrow>
          overlayPages (viewer (run pageCapture
            (selectingEvents @ [Pointer 1 origin Leave, Pointer 2 origin (Down (mouseAt 10 10))])
            initialSession)) = [B]"
    by (rule conjunct2)
  with parts mounted
  have last: "overlayPages (viewer (run pageCapture
            (selectingEvents @ [Pointer 1 origin Leave, Pointer 2 origin (Down (mouseAt 10 10))])
            initialSession)) = [2]"
    by (metis one_le_numeral)
  have first: "overlayPages (viewer (run pageCapture selectingEvents initialSession)) = [1]"
    by (simp only: selectedSession_reachable selectedSession_overlay)
  from selectingEvents_trace first last show ?thesis by (intro conjI)
qed

text \<open>
  The pointer discipline is needed: events that reach page 2 while page 1 is still in
  a drag, as two pointers would deliver them, leave two overlays.
\<close>

lemma two_pointers_two_overlays:
  "\<not> pointerTrace None
       [Upload (Some [''paper.pdf'']), ParseSettled (Inr \<lparr>numPages = 3\<rparr>),
        Pointer 1 origin (Down (mouseAt 10 10)), Pointer 2 origin (Down (mouseAt 10 10)),
        Pointer 1 origin (Move (mouseAt 60 60))] \<and>
   overlayPages (viewer (run pageCapture
       [Upload (Some [''paper.pdf'']), ParseSettled (Inr \<lparr>numPages = 3\<rparr>),
        Pointer 1 origin (Down (mouseAt 10 10)), Pointer 2 origin (Down (mouseAt 10 10)),
        Pointer 1 origin (Move (mouseAt 60 60))] initialSession)) = [1, 2]"
  by (simp add: pointerOk_def pointerNext_def run_def step_def initialSession_def initialApp_def
        initialViewer_def handleFileUpload_def fileEffect_def loadSettled_def setPdfDoc_def
        onPage_def handleMouseDown_def handleMouseMove_def handleSelectionStart_def
        selectionActiveEffect_def getCanvasCoordinates_def origin_def mouseAt_def
        overlayPages_def initialPage_def Let_def numeral_3_eq_3)

end
